theory Spec2Isabelle
  imports Main "HOL-Library.Sublist" "HOL-Library.AList"
begin

section \<open>Paths\<close>

text \<open>
  The initializer script works on absolute, normalised POSIX paths: \<open>TEMPLATE_DIR\<close> and
  \<open>targetDir\<close> come out of \<open>path.resolve\<close>, and every other path is one of them
  extended by \<open>path.join\<close> with a single name. Such a path is held as the list of its
  segments, the root \<open>/\<close> being the empty list. Strings are lists of code units.
\<close>

type_synonym path = "string list"

text \<open>Segments joined by the separator, as \<open>path.relative\<close> and \<open>path.join\<close> print them.\<close>

fun join_segments :: "string list \<Rightarrow> string" where
  "join_segments [] = []"
| "join_segments [s] = s"
| "join_segments (s # t # ts) = s @ ''/'' @ join_segments (t # ts)"

text \<open>\<open>path.join(p, name)\<close> for a single name that is neither \<open>.\<close> nor \<open>..\<close>.\<close>

definition path_join :: "path \<Rightarrow> string \<Rightarrow> path" where
  "path_join p name = p @ [name]"

definition dirname :: "path \<Rightarrow> path" where
  "dirname p = butlast p"


text \<open>
  \<open>path.relative(from, to)\<close>: the common leading segments are dropped, every segment
  left of \<open>from\<close> becomes \<open>..\<close>, and the rest of \<open>to\<close> follows; equal paths give the
  empty string.
\<close>

fun strip_common :: "path \<Rightarrow> path \<Rightarrow> path \<times> path" where
  "strip_common (a # as) (b # bs) = (if a = b then strip_common as bs else (a # as, b # bs))"
| "strip_common as bs = (as, bs)"

definition path_relative :: "path \<Rightarrow> path \<Rightarrow> string" where
  "path_relative from to =
     (case strip_common from to of
        (up, down) \<Rightarrow> join_segments (replicate (length up) ''..'' @ down))"

text \<open>\<open>s.startsWith(ex)\<close>.\<close>

definition startsWith :: "string \<Rightarrow> string \<Rightarrow> bool" where
  "startsWith s ex = prefix ex s"

section \<open>The file system and the console\<close>

text \<open>
  A directory holds the list of its entries' names, which is what \<open>readdirSync\<close> returns;
  a file holds its bytes. Only regular files and directories are modelled, and the only
  failures are those that follow from the shape of the tree (a missing parent, a file
  where a directory is needed, a directory where a file is needed).
\<close>

datatype node = File string | Dir "string list"

type_synonym filesystem = "path \<Rightarrow> node option"

datatype exn =
    ENOENT path
  | ENOTDIR path
  | EEXIST path
  | EISDIR path
  | SyntaxError
  | TypeError

datatype line = Log string | Warn string path | Error exn

record world =
  files :: filesystem
  console :: "line list"

definition existsSync :: "filesystem \<Rightarrow> path \<Rightarrow> bool" where
  "existsSync fs p = (fs p \<noteq> None)"

text \<open>\<open>statSync(p).isDirectory()\<close> for a path that exists.\<close>

definition isDirectory :: "filesystem \<Rightarrow> path \<Rightarrow> bool" where
  "isDirectory fs p = (case fs p of Some (Dir _) \<Rightarrow> True | _ \<Rightarrow> False)"

definition readdirSync :: "filesystem \<Rightarrow> path \<Rightarrow> exn + string list" where
  "readdirSync fs p =
     (case fs p of
        Some (Dir names) \<Rightarrow> Inr names
      | Some (File _) \<Rightarrow> Inl (ENOTDIR p)
      | None \<Rightarrow> Inl (ENOENT p))"

text \<open>Creating the entry \<open>p\<close>: the node appears and its parent lists the name.\<close>

definition add_entry :: "filesystem \<Rightarrow> path \<Rightarrow> node \<Rightarrow> filesystem" where
  "add_entry fs p n =
     (case fs (butlast p) of
        Some (Dir names) \<Rightarrow>
          (if p = [] \<or> last p \<in> set names then fs(p \<mapsto> n)
           else fs(butlast p \<mapsto> Dir (names @ [last p]), p \<mapsto> n))
      | _ \<Rightarrow> fs(p \<mapsto> n))"

text \<open>
  \<open>mkdirSync(p, {recursive: true})\<close>: walking down from \<open>base\<close>, every missing segment
  is created; an existing directory is passed through; a file on the way is an error.
\<close>

fun mkdir_from :: "path \<Rightarrow> string list \<Rightarrow> filesystem \<Rightarrow> exn + filesystem" where
  "mkdir_from base [] fs = Inr fs"
| "mkdir_from base (s # ss) fs =
     (case fs (base @ [s]) of
        Some (Dir _) \<Rightarrow> mkdir_from (base @ [s]) ss fs
      | Some (File _) \<Rightarrow> Inl (if ss = [] then EEXIST (base @ [s]) else ENOTDIR (base @ [s]))
      | None \<Rightarrow> mkdir_from (base @ [s]) ss (add_entry fs (base @ [s]) (Dir [])))"

definition mkdirSync_recursive :: "filesystem \<Rightarrow> path \<Rightarrow> exn + filesystem" where
  "mkdirSync_recursive fs p = mkdir_from [] p fs"

text \<open>Opening \<open>p\<close> for writing and storing \<open>bytes\<close>, replacing what a file there held.\<close>

definition write_file :: "filesystem \<Rightarrow> path \<Rightarrow> string \<Rightarrow> exn + filesystem" where
  "write_file fs p bytes =
     (case fs p of
        Some (Dir _) \<Rightarrow> Inl (EISDIR p)
      | Some (File _) \<Rightarrow> Inr (fs(p \<mapsto> File bytes))
      | None \<Rightarrow>
          (if p = [] then Inl (ENOENT p)
           else case fs (butlast p) of
                  Some (Dir _) \<Rightarrow> Inr (add_entry fs p (File bytes))
                | Some (File _) \<Rightarrow> Inl (ENOTDIR p)
                | None \<Rightarrow> Inl (ENOENT p)))"

definition readFileSync :: "filesystem \<Rightarrow> path \<Rightarrow> exn + string" where
  "readFileSync fs p =
     (case fs p of
        Some (File bytes) \<Rightarrow> Inr bytes
      | Some (Dir _) \<Rightarrow> Inl (EISDIR p)
      | None \<Rightarrow> Inl (ENOENT p))"

definition writeFileSync :: "filesystem \<Rightarrow> path \<Rightarrow> string \<Rightarrow> exn + filesystem" where
  "writeFileSync fs p bytes = write_file fs p bytes"

definition copyFileSync :: "filesystem \<Rightarrow> path \<Rightarrow> path \<Rightarrow> exn + filesystem" where
  "copyFileSync fs src dest =
     (case readFileSync fs src of
        Inl e \<Rightarrow> Inl e
      | Inr bytes \<Rightarrow> write_file fs dest bytes)"

section \<open>Configuration\<close>



section \<open>copyRecursiveSync\<close>

text \<open>
  The template root \<open>TEMPLATE_DIR\<close> is a parameter. The recursion follows the directory
  tree as it is read while the copy writes, so it is bounded by a budget of nested
  calls: \<open>None\<close> says the budget ran out. An exception is \<open>Some (Inl e)\<close>, a normal
  return \<open>Some (Inr w)\<close>. \<open>copyChildren\<close> is the \<open>forEach\<close> over the directory listing.
\<close>

fun copyRecursiveSync ::
    "path \<Rightarrow> nat \<Rightarrow> path \<Rightarrow> path \<Rightarrow> string list \<Rightarrow> world \<Rightarrow> (exn + world) option"
  and copyChildren ::
    "path \<Rightarrow> nat \<Rightarrow> string list \<Rightarrow> path \<Rightarrow> path \<Rightarrow> string list \<Rightarrow> world \<Rightarrow> (exn + world) option"
where
  "copyRecursiveSync TEMPLATE_DIR 0 source destination exclude w = None"
| "copyRecursiveSync TEMPLATE_DIR (Suc n) source destination exclude w =
     (let exists = existsSync (files w) source;
          isDir = (exists \<and> isDirectory (files w) source);
          relativeSourcePath = path_relative TEMPLATE_DIR source
      in if \<not> exists \<or> list_ex (\<lambda>ex. startsWith relativeSourcePath ex) exclude
         then Some (Inr w)
         else if isDir then
           (case (if \<not> existsSync (files w) destination
                  then mkdirSync_recursive (files w) destination
                  else Inr (files w)) of
              Inl e \<Rightarrow> Some (Inl e)
            | Inr fs1 \<Rightarrow>
                (case readdirSync fs1 source of
                   Inl e \<Rightarrow> Some (Inl e)
                 | Inr names \<Rightarrow>
                     copyChildren TEMPLATE_DIR n names source destination exclude
                       (w\<lparr>files := fs1\<rparr>)))
         else if exists then
           (case (if \<not> existsSync (files w) (dirname destination)
                  then mkdirSync_recursive (files w) (dirname destination)
                  else Inr (files w)) of
              Inl e \<Rightarrow> Some (Inl e)
            | Inr fs1 \<Rightarrow>
                (case copyFileSync fs1 source destination of
                   Inl e \<Rightarrow> Some (Inl e)
                 | Inr fs2 \<Rightarrow> Some (Inr (w\<lparr>files := fs2\<rparr>))))
         else Some (Inr (w\<lparr>console := console w @
                 [Warn ''Source path not found, skipping: '' source]\<rparr>)))"
| "copyChildren TEMPLATE_DIR n [] source destination exclude w = Some (Inr w)"
| "copyChildren TEMPLATE_DIR n (childItemName # rest) source destination exclude w =
     (case copyRecursiveSync TEMPLATE_DIR n (path_join source childItemName)
             (path_join destination childItemName) exclude w of
        None \<Rightarrow> None
      | Some (Inl e) \<Rightarrow> Some (Inl e)
      | Some (Inr w1) \<Rightarrow> copyChildren TEMPLATE_DIR n rest source destination exclude w1)"


section \<open>updatePackageJson\<close>










section \<open>Notions used in the statements\<close>

text \<open>
  An entry is preserved when a file keeps its bytes and a directory stays a directory
  that still lists every name it listed.
\<close>

fun preserved :: "node \<Rightarrow> node \<Rightarrow> bool" where
  "preserved (File b) n' = (n' = File b)"
| "preserved (Dir l) n' = (case n' of Dir l' \<Rightarrow> set l \<subseteq> set l' | File _ \<Rightarrow> False)"

text \<open>
  The relation between the file system before and after some steps of a copy from
  \<open>SRC\<close> to \<open>DST\<close>: nothing under \<open>SRC\<close> has changed, and an entry that was there is
  preserved or is a file under \<open>DST\<close> that now holds the bytes of its source.
\<close>

definition later :: "path \<Rightarrow> path \<Rightarrow> filesystem \<Rightarrow> filesystem \<Rightarrow> bool" where
  "later SRC DST fs fs' \<longleftrightarrow>
     (\<forall>x. prefix SRC x \<longrightarrow> fs' x = fs x) \<and>
     (\<forall>y v. fs y = Some v \<longrightarrow>
        (\<exists>v'. fs' y = Some v' \<and> preserved v v') \<or>
        (\<exists>R b b0. y = DST @ R \<and> v = File b0 \<and> fs (SRC @ R) = Some (File b) \<and>
                  fs' y = Some (File b)))"

text \<open>
  The weaker relation that holds of every copy to \<open>DST\<close>: an entry that was there is
  preserved or is a file under \<open>DST\<close> that is still a file.
\<close>

definition survives :: "path \<Rightarrow> filesystem \<Rightarrow> filesystem \<Rightarrow> bool" where
  "survives DST fs fs' \<longleftrightarrow>
     (\<forall>y v. fs y = Some v \<longrightarrow>
        (\<exists>v'. fs' y = Some v' \<and>
           (preserved v v' \<or> (\<exists>R b0 b. y = DST @ R \<and> v = File b0 \<and> v' = File b))))"

text \<open>Every directory on the way from \<open>base\<close> down the segments \<open>ss\<close> is there.\<close>

fun all_dirs :: "path \<Rightarrow> string list \<Rightarrow> filesystem \<Rightarrow> bool" where
  "all_dirs base [] fs = True"
| "all_dirs base (s # ss) fs = (isDirectory fs (base @ [s]) \<and> all_dirs (base @ [s]) ss fs)"


section \<open>Example inputs\<close>

text \<open>
  A template at \<open>/tpl\<close> with \<open>a.txt\<close>, \<open>b/c.txt\<close> and \<open>b/d.txt\<close>, and a destination
  \<open>/out\<close> that already holds \<open>extra.txt\<close>.
\<close>

definition template_tree :: filesystem where
  "template_tree =
     Map.empty([] \<mapsto> Dir [''tpl'', ''out''],
      [''tpl''] \<mapsto> Dir [''a.txt'', ''b''],
      [''tpl'', ''a.txt''] \<mapsto> File ''A'',
      [''tpl'', ''b''] \<mapsto> Dir [''c.txt'', ''d.txt''],
      [''tpl'', ''b'', ''c.txt''] \<mapsto> File ''C'',
      [''tpl'', ''b'', ''d.txt''] \<mapsto> File ''D'',
      [''out''] \<mapsto> Dir [''extra.txt''],
      [''out'', ''extra.txt''] \<mapsto> File ''E'')"

definition template_world :: world where
  "template_world = \<lparr>files = template_tree, console = []\<rparr>"

definition copied_world :: world where
  "copied_world =
     (case copyRecursiveSync [''tpl''] 3 [''tpl''] [''out''] [''b/d.txt''] template_world of
        Some (Inr w) \<Rightarrow> w
      | _ \<Rightarrow> template_world)"

text \<open>A template whose \<open>src\<close> holds \<open>foobar\<close> next to nothing else, and \<open>README.md\<close>.\<close>

definition sibling_tree :: filesystem where
  "sibling_tree =
     Map.empty([] \<mapsto> Dir [''tpl''],
      [''tpl''] \<mapsto> Dir [''README.md'', ''src''],
      [''tpl'', ''README.md''] \<mapsto> File ''readme'',
      [''tpl'', ''src''] \<mapsto> Dir [''foobar''],
      [''tpl'', ''src'', ''foobar''] \<mapsto> File ''data'')"

definition sibling_world :: world where
  "sibling_world = \<lparr>files = sibling_tree, console = []\<rparr>"




section \<open>Preservation of entries\<close>

lemma preserved_refl [simp]: "preserved v v"
  by (cases v) simp_all

lemma preserved_trans: "preserved a b \<Longrightarrow> preserved b c \<Longrightarrow> preserved a c"
  by (cases a; cases b; cases c) auto

lemma preserved_File: "preserved v (File b) \<Longrightarrow> v = File b"
  by (cases v) simp_all

lemma preserved_Dir: "preserved (Dir l) v \<Longrightarrow> \<exists>l'. v = Dir l'"
  by (cases v) simp_all

lemma isDirectory_iff: "isDirectory fs p \<longleftrightarrow> (\<exists>l. fs p = Some (Dir l))"
  by (auto simp: isDirectory_def split: option.splits node.splits)

lemma later_refl: "later SRC DST fs fs"
  unfolding later_def by auto

lemma later_trans:
  assumes ab: "later SRC DST a b" and bc: "later SRC DST b c"
  shows "later SRC DST a c"
  unfolding later_def
proof (intro conjI allI impI)
  fix x assume "prefix SRC x"
  then show "c x = a x" using ab bc by (simp add: later_def)
next
  fix y v assume ay: "a y = Some v"
  from ab ay consider
      (keep) v' where "b y = Some v'" "preserved v v'"
    | (over) R bs b0 where "y = DST @ R" "v = File b0" "a (SRC @ R) = Some (File bs)" "b y = Some (File bs)"
    unfolding later_def by blast
  then show "(\<exists>v'. c y = Some v' \<and> preserved v v') \<or>
        (\<exists>R b b0. y = DST @ R \<and> v = File b0 \<and> a (SRC @ R) = Some (File b) \<and> c y = Some (File b))"
  proof cases
    case keep
    from bc keep(1) consider
        (keep2) v'' where "c y = Some v''" "preserved v' v''"
      | (over2) R bs b0 where "y = DST @ R" "v' = File b0" "b (SRC @ R) = Some (File bs)" "c y = Some (File bs)"
      unfolding later_def by blast
    then show ?thesis
    proof cases
      case keep2
      then show ?thesis using keep(2) preserved_trans by blast
    next
      case over2
      have "v = File b0" using keep(2) over2(2) by (simp add: preserved_File)
      moreover have "a (SRC @ R) = Some (File bs)"
        using ab over2(3) by (simp add: later_def)
      ultimately show ?thesis using over2 by blast
    qed
  next
    case over
    from bc over(4) consider
        (keep2) v'' where "c y = Some v''" "preserved (File bs) v''"
      | (over2) R' bs' where "y = DST @ R'" "b (SRC @ R') = Some (File bs')" "c y = Some (File bs')"
      unfolding later_def by blast
    then show ?thesis
    proof cases
      case keep2
      then have "c y = Some (File bs)" by simp
      then show ?thesis using over by blast
    next
      case over2
      have "R' = R" using over(1) over2(1) by simp
      moreover have "b (SRC @ R) = a (SRC @ R)" using ab by (simp add: later_def)
      ultimately have "bs' = bs" using over(3) over2(2) by simp
      then show ?thesis using over over2 by blast
    qed
  qed
qed

lemma later_exists: "later SRC DST fs fs' \<Longrightarrow> fs y = Some v \<Longrightarrow> fs' y \<noteq> None"
  unfolding later_def by fastforce

lemma later_dir: "later SRC DST fs fs' \<Longrightarrow> fs y = Some (Dir l) \<Longrightarrow> \<exists>l'. fs' y = Some (Dir l')"
  unfolding later_def by (fastforce split: node.splits)

lemma later_source: "later SRC DST fs fs' \<Longrightarrow> fs' (SRC @ p) = fs (SRC @ p)"
  unfolding later_def by simp

lemma all_dirs_later: "all_dirs base ss fs \<Longrightarrow> later SRC DST fs fs' \<Longrightarrow> all_dirs base ss fs'"
  by (induction ss arbitrary: base) (auto simp: isDirectory_iff dest: later_dir)

subsection \<open>Creating an entry\<close>

lemma add_entry_other: "q \<noteq> p \<Longrightarrow> q \<noteq> butlast p \<Longrightarrow> add_entry fs p n q = fs q"
  by (simp add: add_entry_def split: option.splits node.splits)

lemma add_entry_self: "add_entry fs p n p = Some n"
  by (simp add: add_entry_def split: option.splits node.splits)

lemma add_entry_preserved:
  "fs p = None \<Longrightarrow> fs q = Some v \<Longrightarrow> \<exists>v'. add_entry fs p n q = Some v' \<and> preserved v v'"
  by (cases "q = butlast p") (auto simp: add_entry_def split: option.splits node.splits)

subsection \<open>Creating directories and copying a file\<close>

lemma mkdir_from_other:
  "mkdir_from base ss fs = Inr fs' \<Longrightarrow> \<not> prefix q (base @ ss) \<Longrightarrow> fs' q = fs q"
proof (induction ss arbitrary: base fs)
  case Nil
  then show ?case by simp
next
  case (Cons s ss)
  have np: "\<not> prefix q ((base @ [s]) @ ss)" using Cons.prems(2) by simp
  have ne: "q \<noteq> base @ [s]" "q \<noteq> base"
    using Cons.prems(2) by auto
  show ?case
  proof (cases "fs (base @ [s])")
    case None
    then have "mkdir_from (base @ [s]) ss (add_entry fs (base @ [s]) (Dir [])) = Inr fs'"
      using Cons.prems(1) by simp
    from Cons.IH[OF this np] show ?thesis using ne by (simp add: add_entry_other)
  next
    case (Some v)
    then show ?thesis using Cons.prems(1) Cons.IH[OF _ np] by (cases v) auto
  qed
qed

lemma mkdir_from_preserved:
  "mkdir_from base ss fs = Inr fs' \<Longrightarrow> fs q = Some v \<Longrightarrow> \<exists>v'. fs' q = Some v' \<and> preserved v v'"
proof (induction ss arbitrary: base fs v)
  case Nil
  then show ?case by simp
next
  case (Cons s ss)
  show ?case
  proof (cases "fs (base @ [s])")
    case None
    then have run: "mkdir_from (base @ [s]) ss (add_entry fs (base @ [s]) (Dir [])) = Inr fs'"
      using Cons.prems(1) by simp
    from add_entry_preserved[OF None Cons.prems(2)] obtain v1
      where v1: "add_entry fs (base @ [s]) (Dir []) q = Some v1" "preserved v v1" by blast
    from Cons.IH[OF run v1(1)] show ?thesis using v1(2) preserved_trans by blast
  next
    case (Some u)
    then show ?thesis using Cons.prems Cons.IH by (cases u) auto
  qed
qed

lemma mkdir_from_all_dirs: "mkdir_from base ss fs = Inr fs' \<Longrightarrow> all_dirs base ss fs'"
proof (induction ss arbitrary: base fs)
  case Nil
  then show ?case by simp
next
  case (Cons s ss)
  show ?case
  proof (cases "fs (base @ [s])")
    case None
    then have run: "mkdir_from (base @ [s]) ss (add_entry fs (base @ [s]) (Dir [])) = Inr fs'"
      using Cons.prems(1) by simp
    from mkdir_from_preserved[OF run add_entry_self]
    have "isDirectory fs' (base @ [s])" by (metis isDirectory_iff preserved_Dir)
    then show ?thesis using Cons.IH[OF run] by simp
  next
    case (Some u)
    show ?thesis
    proof (cases u)
      case (File b)
      then show ?thesis using Some Cons.prems by simp
    next
      case (Dir l)
      then have run: "mkdir_from (base @ [s]) ss fs = Inr fs'" using Some Cons.prems by simp
      from mkdir_from_preserved[OF run] Some Dir
      have "isDirectory fs' (base @ [s])" by (metis isDirectory_iff preserved_Dir)
      then show ?thesis using Cons.IH[OF run] by simp
    qed
  qed
qed

lemma all_dirs_mkdir_from: "all_dirs base ss fs \<Longrightarrow> mkdir_from base ss fs = Inr fs"
  by (induction ss arbitrary: base) (auto simp: isDirectory_iff)


lemma disjoint_append:
  "\<not> prefix SRC DST \<Longrightarrow> \<not> prefix DST SRC \<Longrightarrow> \<not> prefix SRC (DST @ p)"
  by (auto simp: prefix_append)

lemma mkdir_later:
  assumes mk: "mkdirSync_recursive fs d = Inr fs'" and d: "prefix d (DST @ p)"
    and disj: "\<not> prefix SRC DST" "\<not> prefix DST SRC"
  shows "later SRC DST fs fs'"
  unfolding later_def
proof (intro conjI allI impI)
  fix x assume sx: "prefix SRC x"
  have "\<not> prefix x d"
  proof
    assume "prefix x d"
    then have "prefix SRC (DST @ p)" using sx d by (meson prefix_order.trans)
    then show False using disjoint_append[OF disj] by blast
  qed
  then show "fs' x = fs x" using mk by (simp add: mkdirSync_recursive_def mkdir_from_other)
next
  fix y v assume "fs y = Some v"
  then show "(\<exists>v'. fs' y = Some v' \<and> preserved v v') \<or>
        (\<exists>R b b0. y = DST @ R \<and> v = File b0 \<and> fs (SRC @ R) = Some (File b) \<and> fs' y = Some (File b))"
    using mk mkdir_from_preserved unfolding mkdirSync_recursive_def by blast
qed

lemma copyFile_later:
  assumes cp: "copyFileSync fs (SRC @ p) (DST @ p) = Inr fs'"
    and disj: "\<not> prefix SRC DST" "\<not> prefix DST SRC"
  shows "later SRC DST fs fs'"
proof -
  from cp obtain b where src: "fs (SRC @ p) = Some (File b)"
    and wr: "write_file fs (DST @ p) b = Inr fs'"
    by (auto simp: copyFileSync_def readFileSync_def split: option.splits node.splits)
  have nd: "\<not> prefix SRC (DST @ p)" by (rule disjoint_append[OF disj])
  have nb: "\<not> prefix SRC (butlast (DST @ p))"
    using nd by (metis butlast_conv_take take_is_prefix prefix_order.trans)
  show ?thesis
  proof (cases "fs (DST @ p)")
    case None
    then have fs': "fs' = add_entry fs (DST @ p) (File b)"
      using wr by (auto simp: write_file_def split: if_splits option.splits node.splits)
    show ?thesis unfolding later_def
    proof (intro conjI allI impI)
      fix x assume "prefix SRC x"
      then have "x \<noteq> DST @ p" "x \<noteq> butlast (DST @ p)" using nd nb by auto
      then show "fs' x = fs x" by (simp add: fs' add_entry_other)
    next
      fix y v assume "fs y = Some v"
      from add_entry_preserved[OF None this]
      show "(\<exists>v'. fs' y = Some v' \<and> preserved v v') \<or>
        (\<exists>R b b0. y = DST @ R \<and> v = File b0 \<and> fs (SRC @ R) = Some (File b) \<and> fs' y = Some (File b))"
        by (simp add: fs')
    qed
  next
    case (Some u)
    then obtain b0 where u: "u = File b0" and fs': "fs' = fs(DST @ p \<mapsto> File b)"
      using wr by (cases u) (auto simp: write_file_def)
    show ?thesis unfolding later_def
    proof (intro conjI allI impI)
      fix x assume "prefix SRC x"
      then have "x \<noteq> DST @ p" using nd by auto
      then show "fs' x = fs x" by (simp add: fs')
    next
      fix y v assume yv: "fs y = Some v"
      show "(\<exists>v'. fs' y = Some v' \<and> preserved v v') \<or>
        (\<exists>R b b0. y = DST @ R \<and> v = File b0 \<and> fs (SRC @ R) = Some (File b) \<and> fs' y = Some (File b))"
      proof (cases "y = DST @ p")
        case True
        then have "v = File b0" using yv Some u by simp
        then show ?thesis using True src fs' by auto
      next
        case False
        then show ?thesis using yv by (simp add: fs')
      qed
    qed
  qed
qed

lemma copyFile_result:
  "copyFileSync fs src dst = Inr fs' \<Longrightarrow> \<exists>b. fs src = Some (File b) \<and> fs' dst = Some (File b)"
  by (auto simp: copyFileSync_def readFileSync_def write_file_def add_entry_self
      split: option.splits node.splits if_splits)

lemma copyFile_idem:
  "fs src = Some (File b) \<Longrightarrow> fs dst = Some (File b) \<Longrightarrow> copyFileSync fs src dst = Inr fs"
  by (auto simp: copyFileSync_def readFileSync_def write_file_def)

section \<open>One call of copyRecursiveSync, case by case\<close>

lemma copy_skip:
  "\<not> existsSync (files w) source \<or> list_ex (\<lambda>ex. startsWith (path_relative TD source) ex) exclude \<Longrightarrow>
   copyRecursiveSync TD (Suc n) source destination exclude w = Some (Inr w)"
  by (auto simp: Let_def)

lemma copy_dir:
  "existsSync (files w) source \<Longrightarrow> \<not> list_ex (\<lambda>ex. startsWith (path_relative TD source) ex) exclude \<Longrightarrow>
   isDirectory (files w) source \<Longrightarrow>
   copyRecursiveSync TD (Suc n) source destination exclude w =
     (case (if \<not> existsSync (files w) destination
                  then mkdirSync_recursive (files w) destination
                  else Inr (files w)) of
              Inl e \<Rightarrow> Some (Inl e)
            | Inr fs1 \<Rightarrow>
                (case readdirSync fs1 source of
                   Inl e \<Rightarrow> Some (Inl e)
                 | Inr names \<Rightarrow>
                     copyChildren TD n names source destination exclude
                       (w\<lparr>files := fs1\<rparr>)))"
  by (simp add: Let_def)

lemma copy_file:
  "existsSync (files w) source \<Longrightarrow> \<not> list_ex (\<lambda>ex. startsWith (path_relative TD source) ex) exclude \<Longrightarrow>
   \<not> isDirectory (files w) source \<Longrightarrow>
   copyRecursiveSync TD (Suc n) source destination exclude w =
     (case (if \<not> existsSync (files w) (dirname destination)
                  then mkdirSync_recursive (files w) (dirname destination)
                  else Inr (files w)) of
              Inl e \<Rightarrow> Some (Inl e)
            | Inr fs1 \<Rightarrow>
                (case copyFileSync fs1 source destination of
                   Inl e \<Rightarrow> Some (Inl e)
                 | Inr fs2 \<Rightarrow> Some (Inr (w\<lparr>files := fs2\<rparr>))))"
  by (simp add: Let_def)

lemma copyChildren_Cons_ok:
  "copyChildren TD n (c # cs) source destination exclude w = Some (Inr w') \<Longrightarrow>
   \<exists>w1. copyRecursiveSync TD n (source @ [c]) (destination @ [c]) exclude w = Some (Inr w1) \<and>
        copyChildren TD n cs source destination exclude w1 = Some (Inr w')"
  by (auto simp: path_join_def split: option.splits sum.splits)

lemma mkstep_later:
  assumes mk: "(if \<not> existsSync fs d then mkdirSync_recursive fs d else Inr fs) = Inr fs1"
    and d: "prefix d (DST @ p)"
    and disj: "\<not> prefix SRC DST" "\<not> prefix DST SRC"
  shows "later SRC DST fs fs1"
  using mk mkdir_later[OF _ d disj] later_refl by (auto split: if_splits)

lemma children_later:
  assumes IH: "\<And>p w w'. copyRecursiveSync TD n (SRC @ p) (DST @ p) ex w = Some (Inr w') \<Longrightarrow>
                 later SRC DST (files w) (files w')"
  shows "copyChildren TD n cs (SRC @ p) (DST @ p) ex w = Some (Inr w') \<Longrightarrow>
         later SRC DST (files w) (files w')"
proof (induction cs arbitrary: w)
  case Nil
  then show ?case by (simp add: later_refl)
next
  case (Cons c cs)
  from copyChildren_Cons_ok[OF Cons.prems] obtain w1
    where c1: "copyRecursiveSync TD n (SRC @ (p @ [c])) (DST @ (p @ [c])) ex w = Some (Inr w1)"
      and c2: "copyChildren TD n cs (SRC @ p) (DST @ p) ex w1 = Some (Inr w')"
    by auto
  from IH[OF c1] Cons.IH[OF c2] show ?case by (rule later_trans)
qed

lemma copy_later:
  assumes disj: "\<not> prefix SRC DST" "\<not> prefix DST SRC"
  shows "copyRecursiveSync TD n (SRC @ p) (DST @ p) ex w = Some (Inr w') \<Longrightarrow>
         later SRC DST (files w) (files w')"
proof (induction n arbitrary: p w w')
  case 0
  then show ?case by simp
next
  case (Suc n)
  let ?src = "SRC @ p" and ?dst = "DST @ p"
  let ?skip = "\<not> existsSync (files w) ?src \<or> list_ex (\<lambda>e. startsWith (path_relative TD ?src) e) ex"
  show ?case
  proof (cases ?skip)
    case True
    then have "w' = w" using Suc.prems copy_skip[of w ?src TD ex n ?dst] by simp
    then show ?thesis by (simp add: later_refl)
  next
    case False
    then have ex: "existsSync (files w) ?src"
      and inc: "\<not> list_ex (\<lambda>e. startsWith (path_relative TD ?src) e) ex" by auto
    show ?thesis
    proof (cases "isDirectory (files w) ?src")
      case True
      from Suc.prems obtain fs1 names
        where mk: "(if \<not> existsSync (files w) ?dst then mkdirSync_recursive (files w) ?dst
                    else Inr (files w)) = Inr fs1"
          and ch: "copyChildren TD n names ?src ?dst ex (w\<lparr>files := fs1\<rparr>) = Some (Inr w')"
        unfolding copy_dir[OF ex inc True] by (auto split: sum.splits)
      have "later SRC DST (files w) fs1"
        by (rule mkstep_later[where p = p, OF mk _ disj]) simp
      moreover have "later SRC DST fs1 (files w')"
        using children_later[OF Suc.IH ch] by simp
      ultimately show ?thesis by (rule later_trans)
    next
      case False
      from Suc.prems obtain fs1 fs2
        where mk: "(if \<not> existsSync (files w) (dirname ?dst)
                    then mkdirSync_recursive (files w) (dirname ?dst)
                    else Inr (files w)) = Inr fs1"
          and cp: "copyFileSync fs1 ?src ?dst = Inr fs2" and w': "w' = w\<lparr>files := fs2\<rparr>"
        unfolding copy_file[OF ex inc False] by (auto split: sum.splits)
      have "prefix (dirname ?dst) ?dst"
        by (metis dirname_def butlast_conv_take take_is_prefix)
      then have "later SRC DST (files w) fs1"
        by (rule mkstep_later[where p = p, OF mk _ disj])
      moreover have "later SRC DST fs1 fs2" by (rule copyFile_later[OF cp disj])
      ultimately show ?thesis unfolding w' by (simp add: later_trans)
    qed
  qed
qed

section \<open>Running the copy again\<close>

lemma later_copied:
  assumes l: "later SRC DST fs fs'" and d: "fs (DST @ p) = Some (File b)"
    and s: "fs (SRC @ p) = Some (File b)"
  shows "fs' (DST @ p) = Some (File b)"
proof -
  from l d consider
      (keep) v' where "fs' (DST @ p) = Some v'" "preserved (File b) v'"
    | (over) R bs where "DST @ p = DST @ R" "fs (SRC @ R) = Some (File bs)" "fs' (DST @ p) = Some (File bs)"
    unfolding later_def by blast
  then show ?thesis
  proof cases
    case keep
    then show ?thesis by simp
  next
    case over
    then show ?thesis using s by simp
  qed
qed

lemma mkstep_rerun:
  assumes mk: "(if \<not> existsSync fs d then mkdirSync_recursive fs d else Inr fs) = Inr fs1"
    and l0: "later SRC DST fs t" and l1: "later SRC DST fs1 t"
  shows "(if \<not> existsSync t d then mkdirSync_recursive t d else Inr t) = Inr t"
proof (cases "existsSync t d")
  case True
  then show ?thesis by simp
next
  case False
  then have "\<not> existsSync fs d"
    using later_exists[OF l0, of d] by (cases "fs d") (auto simp: existsSync_def)
  then have "mkdir_from [] d fs = Inr fs1" using mk by (simp add: mkdirSync_recursive_def)
  then have "all_dirs [] d fs1" by (rule mkdir_from_all_dirs)
  then have "all_dirs [] d t" using l1 by (rule all_dirs_later)
  then show ?thesis using False by (simp add: mkdirSync_recursive_def all_dirs_mkdir_from)
qed

lemma children_rerun:
  assumes IH: "\<And>p w w' t. copyRecursiveSync TD n (SRC @ p) (DST @ p) ex w = Some (Inr w') \<Longrightarrow>
                 later SRC DST (files w') (files t) \<Longrightarrow>
                 copyRecursiveSync TD n (SRC @ p) (DST @ p) ex t = Some (Inr t)"
    and disj: "\<not> prefix SRC DST" "\<not> prefix DST SRC"
  shows "copyChildren TD n cs (SRC @ p) (DST @ p) ex w = Some (Inr w') \<Longrightarrow>
         later SRC DST (files w') (files t) \<Longrightarrow>
         copyChildren TD n cs (SRC @ p) (DST @ p) ex t = Some (Inr t)"
proof (induction cs arbitrary: w)
  case Nil
  then show ?case by simp
next
  case (Cons c cs)
  from copyChildren_Cons_ok[OF Cons.prems(1)] obtain w1
    where c1: "copyRecursiveSync TD n (SRC @ (p @ [c])) (DST @ (p @ [c])) ex w = Some (Inr w1)"
      and c2: "copyChildren TD n cs (SRC @ p) (DST @ p) ex w1 = Some (Inr w')"
    by auto
  have "later SRC DST (files w1) (files w')"
    using children_later[OF copy_later[OF disj] c2] .
  then have "later SRC DST (files w1) (files t)"
    using Cons.prems(2) by (rule later_trans)
  from IH[OF c1 this] Cons.IH[OF c2 Cons.prems(2)]
  show ?case by (simp add: path_join_def)
qed

lemma copy_rerun:
  assumes disj: "\<not> prefix SRC DST" "\<not> prefix DST SRC"
  shows "copyRecursiveSync TD n (SRC @ p) (DST @ p) ex w = Some (Inr w') \<Longrightarrow>
         later SRC DST (files w') (files t) \<Longrightarrow>
         copyRecursiveSync TD n (SRC @ p) (DST @ p) ex t = Some (Inr t)"
proof (induction n arbitrary: p w w' t)
  case 0
  then show ?case by simp
next
  case (Suc n)
  let ?src = "SRC @ p" and ?dst = "DST @ p"
  have ww': "later SRC DST (files w) (files w')" by (rule copy_later[OF disj Suc.prems(1)])
  then have wt: "later SRC DST (files w) (files t)" using Suc.prems(2) by (rule later_trans)
  have src_t: "files t ?src = files w ?src" by (rule later_source[OF wt])
  have ex_t: "existsSync (files t) ?src = existsSync (files w) ?src"
    and dir_t: "isDirectory (files t) ?src = isDirectory (files w) ?src"
    by (simp_all add: existsSync_def isDirectory_def src_t)
  let ?skip = "\<not> existsSync (files w) ?src \<or> list_ex (\<lambda>e. startsWith (path_relative TD ?src) e) ex"
  show ?case
  proof (cases ?skip)
    case True
    then show ?thesis using copy_skip[of t ?src TD ex n ?dst] ex_t by simp
  next
    case False
    then have ex: "existsSync (files w) ?src"
      and inc: "\<not> list_ex (\<lambda>e. startsWith (path_relative TD ?src) e) ex" by auto
    have ext: "existsSync (files t) ?src" using ex ex_t by simp
    show ?thesis
    proof (cases "isDirectory (files w) ?src")
      case True
      then have dirt: "isDirectory (files t) ?src" using dir_t by simp
      from Suc.prems(1) obtain fs1 names
        where mk: "(if \<not> existsSync (files w) ?dst then mkdirSync_recursive (files w) ?dst
                    else Inr (files w)) = Inr fs1"
          and rd: "readdirSync fs1 ?src = Inr names"
          and ch: "copyChildren TD n names ?src ?dst ex (w\<lparr>files := fs1\<rparr>) = Some (Inr w')"
        unfolding copy_dir[OF ex inc True] by (auto split: sum.splits)
      have "later SRC DST fs1 (files w')"
        using children_later[OF copy_later[OF disj] ch] by simp
      then have l1: "later SRC DST fs1 (files t)" using Suc.prems(2) by (rule later_trans)
      have mkt: "(if \<not> existsSync (files t) ?dst then mkdirSync_recursive (files t) ?dst
                  else Inr (files t)) = Inr (files t)"
        by (rule mkstep_rerun[OF mk wt l1])
      have "files t ?src = fs1 ?src" by (rule later_source[OF l1])
      then have rdt: "readdirSync (files t) ?src = Inr names"
        using rd by (simp add: readdirSync_def)
      have "copyChildren TD n names ?src ?dst ex t = Some (Inr t)"
        by (rule children_rerun[OF Suc.IH disj ch Suc.prems(2)])
      then show ?thesis
        unfolding copy_dir[OF ext inc dirt] mkt by (simp add: rdt)
    next
      case False
      then have dirt: "\<not> isDirectory (files t) ?src" using dir_t by simp
      from Suc.prems(1) obtain fs1 fs2
        where mk: "(if \<not> existsSync (files w) (dirname ?dst)
                    then mkdirSync_recursive (files w) (dirname ?dst)
                    else Inr (files w)) = Inr fs1"
          and cp: "copyFileSync fs1 ?src ?dst = Inr fs2" and w': "w' = w\<lparr>files := fs2\<rparr>"
        unfolding copy_file[OF ex inc False] by (auto split: sum.splits)
      have l12: "later SRC DST fs1 fs2" by (rule copyFile_later[OF cp disj])
      have l2t: "later SRC DST fs2 (files t)" using Suc.prems(2) by (simp add: w')
      have l1: "later SRC DST fs1 (files t)" using l12 l2t by (rule later_trans)
      have mkt: "(if \<not> existsSync (files t) (dirname ?dst)
                  then mkdirSync_recursive (files t) (dirname ?dst)
                  else Inr (files t)) = Inr (files t)"
        by (rule mkstep_rerun[OF mk wt l1])
      from copyFile_result[OF cp] obtain b
        where b1: "fs1 ?src = Some (File b)" and b2: "fs2 ?dst = Some (File b)" by blast
      have "fs2 ?src = Some (File b)" using later_source[OF l12] b1 by simp
      from later_copied[OF l2t b2 this] have dt: "files t ?dst = Some (File b)" .
      have st: "files t ?src = Some (File b)" using later_source[OF l1] b1 by simp
      show ?thesis
        unfolding copy_file[OF ext inc dirt] mkt using copyFile_idem[of "files t" ?src b ?dst] st dt by simp
    qed
  qed
qed

section \<open>Nothing is deleted\<close>

lemma survives_refl: "survives DST fs fs"
  unfolding survives_def by auto

lemma survives_trans:
  assumes ab: "survives DST a b" and bc: "survives DST b c"
  shows "survives DST a c"
  unfolding survives_def
proof (intro allI impI)
  fix y v assume "a y = Some v"
  with ab obtain v' where v': "b y = Some v'"
    and s1: "preserved v v' \<or> (\<exists>R b0 b. y = DST @ R \<and> v = File b0 \<and> v' = File b)"
    unfolding survives_def by blast
  from bc v' obtain v'' where v'': "c y = Some v''"
    and s2: "preserved v' v'' \<or> (\<exists>R b0 b. y = DST @ R \<and> v' = File b0 \<and> v'' = File b)"
    unfolding survives_def by blast
  have "preserved v v'' \<or> (\<exists>R b0 b. y = DST @ R \<and> v = File b0 \<and> v'' = File b)"
  proof (cases "preserved v v'")
    case True
    show ?thesis
    proof (cases "preserved v' v''")
      case True
      with \<open>preserved v v'\<close> show ?thesis using preserved_trans by blast
    next
      case False
      then obtain R b0 b where "y = DST @ R" "v' = File b0" "v'' = File b" using s2 by blast
      moreover from this True have "v = File b0" by (simp add: preserved_File)
      ultimately show ?thesis by blast
    qed
  next
    case False
    then obtain R b0 b where o: "y = DST @ R" "v = File b0" "v' = File b" using s1 by blast
    then have "\<exists>b'. v'' = File b'" using s2 by auto
    then show ?thesis using o by blast
  qed
  then show "\<exists>v'. c y = Some v' \<and>
          (preserved v v' \<or> (\<exists>R b0 b. y = DST @ R \<and> v = File b0 \<and> v' = File b))"
    using v'' by blast
qed

lemma mkstep_survives:
  assumes mk: "(if \<not> existsSync fs d then mkdirSync_recursive fs d else Inr fs) = Inr fs1"
  shows "survives DST fs fs1"
proof (cases "existsSync fs d")
  case True
  then show ?thesis using mk by (simp add: survives_refl)
next
  case False
  then have "mkdir_from [] d fs = Inr fs1" using mk by (simp add: mkdirSync_recursive_def)
  then show ?thesis unfolding survives_def using mkdir_from_preserved by blast
qed

lemma copyFile_survives:
  assumes cp: "copyFileSync fs src (DST @ p) = Inr fs'"
  shows "survives DST fs fs'"
proof -
  from cp obtain b where wr: "write_file fs (DST @ p) b = Inr fs'"
    by (auto simp: copyFileSync_def readFileSync_def split: option.splits node.splits)
  show ?thesis
  proof (cases "fs (DST @ p)")
    case None
    then have fs': "fs' = add_entry fs (DST @ p) (File b)"
      using wr by (auto simp: write_file_def split: if_splits option.splits node.splits)
    show ?thesis unfolding survives_def fs'
      using add_entry_preserved[of fs "DST @ p", OF None] by blast
  next
    case (Some u)
    then obtain b0 where u: "u = File b0" and fs': "fs' = fs(DST @ p \<mapsto> File b)"
      using wr by (cases u) (auto simp: write_file_def)
    show ?thesis unfolding survives_def
    proof (intro allI impI)
      fix y v assume yv: "fs y = Some v"
      show "\<exists>v'. fs' y = Some v' \<and>
          (preserved v v' \<or> (\<exists>R b0 b. y = DST @ R \<and> v = File b0 \<and> v' = File b))"
      proof (cases "y = DST @ p")
        case True
        then have "v = File b0" using yv Some u by simp
        then show ?thesis using True fs' by auto
      next
        case False
        then show ?thesis using yv by (simp add: fs')
      qed
    qed
  qed
qed

lemma children_survives:
  assumes IH: "\<And>s p w w'. copyRecursiveSync TD n s (DST @ p) ex w = Some (Inr w') \<Longrightarrow>
                 survives DST (files w) (files w')"
  shows "copyChildren TD n cs s (DST @ p) ex w = Some (Inr w') \<Longrightarrow>
         survives DST (files w) (files w')"
proof (induction cs arbitrary: w)
  case Nil
  then show ?case by (simp add: survives_refl)
next
  case (Cons c cs)
  from copyChildren_Cons_ok[OF Cons.prems] obtain w1
    where c1: "copyRecursiveSync TD n (s @ [c]) (DST @ (p @ [c])) ex w = Some (Inr w1)"
      and c2: "copyChildren TD n cs s (DST @ p) ex w1 = Some (Inr w')"
    by auto
  from IH[OF c1] Cons.IH[OF c2] show ?case by (rule survives_trans)
qed

lemma copy_survives:
  "copyRecursiveSync TD n s (DST @ p) ex w = Some (Inr w') \<Longrightarrow>
   survives DST (files w) (files w')"
proof (induction n arbitrary: s p w w')
  case 0
  then show ?case by simp
next
  case (Suc n)
  let ?dst = "DST @ p"
  let ?skip = "\<not> existsSync (files w) s \<or> list_ex (\<lambda>e. startsWith (path_relative TD s) e) ex"
  show ?case
  proof (cases ?skip)
    case True
    then have "w' = w" using Suc.prems copy_skip[of w s TD ex n ?dst] by simp
    then show ?thesis by (simp add: survives_refl)
  next
    case False
    then have ex: "existsSync (files w) s"
      and inc: "\<not> list_ex (\<lambda>e. startsWith (path_relative TD s) e) ex" by auto
    show ?thesis
    proof (cases "isDirectory (files w) s")
      case True
      from Suc.prems obtain fs1 names
        where mk: "(if \<not> existsSync (files w) ?dst then mkdirSync_recursive (files w) ?dst
                    else Inr (files w)) = Inr fs1"
          and ch: "copyChildren TD n names s ?dst ex (w\<lparr>files := fs1\<rparr>) = Some (Inr w')"
        unfolding copy_dir[OF ex inc True] by (auto split: sum.splits)
      have "survives DST (files w) fs1" by (rule mkstep_survives[OF mk])
      moreover have "survives DST fs1 (files w')"
        using children_survives[OF Suc.IH ch] by simp
      ultimately show ?thesis by (rule survives_trans)
    next
      case False
      from Suc.prems obtain fs1 fs2
        where mk: "(if \<not> existsSync (files w) (dirname ?dst)
                    then mkdirSync_recursive (files w) (dirname ?dst)
                    else Inr (files w)) = Inr fs1"
          and cp: "copyFileSync fs1 s ?dst = Inr fs2" and w': "w' = w\<lparr>files := fs2\<rparr>"
        unfolding copy_file[OF ex inc False] by (auto split: sum.splits)
      have "survives DST (files w) fs1" by (rule mkstep_survives[OF mk])
      moreover have "survives DST fs1 fs2" by (rule copyFile_survives[OF cp])
      ultimately show ?thesis unfolding w' by (simp add: survives_trans)
    qed
  qed
qed

section \<open>The console during a copy\<close>

text \<open>No call that returns normally has written a line: the warning is never printed.\<close>

lemma children_console:
  assumes IH: "\<And>s d w w'. copyRecursiveSync TD n s d ex w = Some (Inr w') \<Longrightarrow> console w' = console w"
  shows "copyChildren TD n cs s d ex w = Some (Inr w') \<Longrightarrow> console w' = console w"
proof (induction cs arbitrary: w)
  case Nil
  then show ?case by simp
next
  case (Cons c cs)
  from copyChildren_Cons_ok[OF Cons.prems] obtain w1
    where c1: "copyRecursiveSync TD n (s @ [c]) (d @ [c]) ex w = Some (Inr w1)"
      and c2: "copyChildren TD n cs s d ex w1 = Some (Inr w')"
    by auto
  from IH[OF c1] Cons.IH[OF c2] show ?case by simp
qed

lemma copy_console:
  "copyRecursiveSync TD n s d ex w = Some (Inr w') \<Longrightarrow> console w' = console w"
proof (induction n arbitrary: s d w w')
  case 0
  then show ?case by simp
next
  case (Suc n)
  let ?skip = "\<not> existsSync (files w) s \<or> list_ex (\<lambda>e. startsWith (path_relative TD s) e) ex"
  show ?case
  proof (cases ?skip)
    case True
    then show ?thesis using Suc.prems copy_skip[of w s TD ex n d] by simp
  next
    case False
    then have ex: "existsSync (files w) s"
      and inc: "\<not> list_ex (\<lambda>e. startsWith (path_relative TD s) e) ex" by auto
    show ?thesis
    proof (cases "isDirectory (files w) s")
      case True
      from Suc.prems obtain fs1 names
        where ch: "copyChildren TD n names s d ex (w\<lparr>files := fs1\<rparr>) = Some (Inr w')"
        unfolding copy_dir[OF ex inc True] by (auto split: sum.splits)
      from children_console[OF Suc.IH ch] show ?thesis by simp
    next
      case False
      from Suc.prems show ?thesis
        unfolding copy_file[OF ex inc False] by (auto split: sum.splits)
    qed
  qed
qed

section \<open>The example copy\<close>

lemmas fs_defs = existsSync_def isDirectory_def readdirSync_def add_entry_def
  mkdirSync_recursive_def write_file_def readFileSync_def writeFileSync_def copyFileSync_def
  path_join_def dirname_def path_relative_def startsWith_def Let_def

lemma copied_world_run:
  "copyRecursiveSync [''tpl''] 3 [''tpl''] [''out''] [''b/d.txt''] template_world = Some (Inr copied_world)"
proof -
  have "\<exists>w. copyRecursiveSync [''tpl''] 3 [''tpl''] [''out''] [''b/d.txt''] template_world = Some (Inr w)"
    by (simp add: numeral_3_eq_3 template_world_def template_tree_def fs_defs)
  then show ?thesis by (auto simp: copied_world_def)
qed

section \<open>Properties of copyRecursiveSync\<close>

text \<open>
  C1. The exclusion test is \<open>startsWith\<close> on the relative path as a string, so it
  does not stop at a segment boundary. With the exclusion \<open>src/foo\<close>, the sibling
  \<open>src/foobar\<close> has the relative path \<open>src/foobar\<close>, the call on it returns at once
  without copying, and the copy of \<open>src\<close> leaves \<open>out/src\<close> empty; with no exclusion
  the same copy brings \<open>foobar\<close> over.
\<close>

theorem sibling_excluded_by_raw_prefix:
  "path_relative [''tpl''] [''tpl'', ''src'', ''foobar''] = ''src/foobar'' \<and>
   copyRecursiveSync [''tpl''] (Suc 0) [''tpl'', ''src'', ''foobar''] [''out'', ''src'', ''foobar'']
     [''src/foo''] sibling_world = Some (Inr sibling_world) \<and>
   (case copyRecursiveSync [''tpl''] 2 [''tpl'', ''src''] [''out'', ''src''] [''src/foo''] sibling_world of
      Some (Inr w') \<Rightarrow> files w' [''out'', ''src''] = Some (Dir []) \<and>
                       files w' [''out'', ''src'', ''foobar''] = None
    | _ \<Rightarrow> False) \<and>
   (case copyRecursiveSync [''tpl''] 2 [''tpl'', ''src''] [''out'', ''src''] [] sibling_world of
      Some (Inr w') \<Rightarrow> files w' [''out'', ''src'', ''foobar''] = Some (File ''data'')
    | _ \<Rightarrow> False)"
  by (simp add: numeral_2_eq_2 sibling_world_def sibling_tree_def fs_defs)




text \<open>
  C7. When a copy from \<open>source\<close> to \<open>destination\<close> has returned normally, and neither
  path lies inside the other, the same call on the resulting world returns normally
  with the same budget and leaves that world exactly as it is.
\<close>

theorem rerun_idempotent:
  assumes "copyRecursiveSync TD n source destination exclude w = Some (Inr w')"
    and "\<not> prefix source destination" and "\<not> prefix destination source"
  shows "copyRecursiveSync TD n source destination exclude w' = Some (Inr w')"
  using copy_rerun[OF assms(2,3), of TD n "[]" exclude w w' w'] assms(1) later_refl
  by simp

theorem rerun_idempotent_witness:
  "copyRecursiveSync [''tpl''] 3 [''tpl''] [''out''] [''b/d.txt''] template_world = Some (Inr copied_world) \<and>
   \<not> prefix [''tpl''] [''out''] \<and> \<not> prefix [''out''] [''tpl''] \<and>
   copyRecursiveSync [''tpl''] 3 [''tpl''] [''out''] [''b/d.txt''] copied_world = Some (Inr copied_world)"
proof -
  have d1: "\<not> prefix [''tpl''] [''out'']" and d2: "\<not> prefix [''out''] [''tpl'']" by simp_all
  show ?thesis using copied_world_run d1 d2 rerun_idempotent[OF copied_world_run d1 d2] by simp
qed

text \<open>
  C8. When a copy from \<open>source\<close> to \<open>destination\<close> has returned normally, every
  entry that was there before is still there. It is preserved (a file with the same
  bytes, a directory still a directory listing at least the same names), or it is a
  file under the destination that has been replaced by a file; when neither path lies
  inside the other, the replacing bytes are those of the file at the corresponding
  place in the source. So nothing is deleted, and an entry of the destination with no
  counterpart in the source is left as it was.
\<close>

theorem frame:
  assumes run: "copyRecursiveSync TD n source destination exclude w = Some (Inr w')"
    and pre: "files w q = Some v"
  shows "\<exists>v'. files w' q = Some v' \<and>
           (preserved v v' \<or>
            (\<exists>r b0 b. q = destination @ r \<and> v = File b0 \<and> v' = File b \<and>
               (\<not> prefix source destination \<and> \<not> prefix destination source \<longrightarrow>
                  files w (source @ r) = Some (File b))))"
proof (cases "\<not> prefix source destination \<and> \<not> prefix destination source")
  case True
  then have "later source destination (files w) (files w')"
    using copy_later[of source destination TD n "[]" exclude w w'] run by simp
  then show ?thesis using pre unfolding later_def by fastforce
next
  case False
  have "survives destination (files w) (files w')"
    using copy_survives[of TD n source destination "[]" exclude w w'] run by simp
  then show ?thesis using pre False unfolding survives_def by fastforce
qed

theorem frame_witness:
  "copyRecursiveSync [''tpl''] 3 [''tpl''] [''out''] [''b/d.txt''] template_world = Some (Inr copied_world) \<and>
   files template_world [''out'', ''extra.txt''] = Some (File ''E'') \<and>
   \<not> prefix [''tpl''] [''out''] \<and> \<not> prefix [''out''] [''tpl''] \<and>
   files template_world [''tpl'', ''extra.txt''] = None \<and>
   files copied_world [''out'', ''extra.txt''] = Some (File ''E'')"
proof -
  have d: "\<not> prefix [''tpl''] [''out''] \<and> \<not> prefix [''out''] [''tpl'']" by simp
  have pre: "files template_world [''out'', ''extra.txt''] = Some (File ''E'')"
    by (simp add: template_world_def template_tree_def)
  have src: "files template_world [''tpl'', ''extra.txt''] = None"
    by (simp add: template_world_def template_tree_def)
  from frame[OF copied_world_run pre] d src
  have "files copied_world [''out'', ''extra.txt''] = Some (File ''E'')" by auto
  then show ?thesis using copied_world_run d pre src by simp
qed

text \<open>
  C10. When the empty string is among the exclusions, every call is skipped, the call
  on the template root (whose relative path is empty) included: it returns normally
  with the world unchanged.
\<close>

theorem empty_exclusion_noop:
  assumes "[] \<in> set exclude"
  shows "copyRecursiveSync TD (Suc n) source destination exclude w = Some (Inr w)"
proof -
  have "startsWith (path_relative TD source) []" by (simp add: startsWith_def)
  then have "list_ex (\<lambda>ex. startsWith (path_relative TD source) ex) exclude"
    using assms unfolding list_ex_iff by blast
  then show ?thesis by (rule copy_skip[OF disjI2])
qed

theorem empty_exclusion_noop_witness:
  "[] \<in> set [''dist'', []] \<and> path_relative [''tpl''] [''tpl''] = [] \<and>
   copyRecursiveSync [''tpl''] (Suc 0) [''tpl''] [''out''] [''dist'', []] template_world =
     Some (Inr template_world)"
proof -
  have m: "[] \<in> set [''dist'', []]" by simp
  show ?thesis using m empty_exclusion_noop[OF m, of "[''tpl'']" 0 "[''tpl'']" "[''out'']" template_world]
    by (simp add: path_relative_def)
qed

section \<open>The fields of the rewritten manifest\<close>













section \<open>Properties of updatePackageJson\<close>











end
